theory Spec2Isabelle
  imports Main "HOL-Library.Sublist"
begin

section \<open>filtered_logger.py: redaction of personal data in log lines\<close>

text \<open>
  Python strings are modelled as \<open>string\<close>. Exceptions are values of \<open>error\<close>,
  returned as \<open>Inl\<close> of a sum type.
\<close>

datatype error =
    Unsupported_pattern
  | Connect_error
  | Query_error
  | Fetch_error
  | IndexError

definition PII_FIELDS :: "string list" where
  "PII_FIELDS = [''name'', ''email'', ''phone'', ''ssn'', ''password'']"

subsection \<open>The regular expression of \<open>filter_datum\<close>\<close>

text \<open>
  Line 29 builds the pattern text \<^verbatim>\<open>'({})=([^{}]*)'.format('|'.join(fields), separator)\<close>
  and line 32 hands it to \<^verbatim>\<open>re.sub\<close>. Field names and separator are pasted into the
  pattern unescaped, so \<^verbatim>\<open>re\<close> reads the operators they hold. The embedding covers the
  patterns in which the only operator of a field name is \<^verbatim>\<open>$\<close> (the end of the text) and
  the separator is not empty and holds no character with a meaning inside a bracketed
  set. For such input the pattern is an alternation of field names in group 1, the
  character \<open>=\<close>, and in group 2 the longest run of characters that are not among those
  of the separator. Every other input is answered \<open>Unsupported_pattern\<close>: there
  \<^verbatim>\<open>re\<close> would read further operators or raise \<^verbatim>\<open>re.error\<close>, which is outside this
  development. A field name is literal when it holds no operator at all, \<^verbatim>\<open>$\<close> included.
\<close>

definition re_special :: "char list" where
  "re_special = CHR 0x5C # ''.^$*+?{}[]|()''"

definition re_unsupported :: "char list" where
  "re_unsupported = CHR 0x5C # ''.^*+?{}[]|()''"

definition set_special :: "char list" where
  "set_special = CHR 0x5C # '']^-[''"

definition literal_text :: "string \<Rightarrow> bool" where
  "literal_text s = list_all (\<lambda>c. c \<notin> set re_special) s"

definition supported_text :: "string \<Rightarrow> bool" where
  "supported_text s = list_all (\<lambda>c. c \<notin> set re_unsupported) s"

definition literal_set :: "string \<Rightarrow> bool" where
  "literal_set s = (s \<noteq> [] \<and> list_all (\<lambda>c. c \<notin> set set_special) s)"

datatype pattern = Pattern (alternatives: "string list") (excluded: "char list")

text \<open>
  \<^verbatim>\<open>'|'.join([])\<close> is the empty text, so an empty field list gives the group \<^verbatim>\<open>()\<close>,
  whose only alternative is the empty word.
\<close>

definition re_compile :: "string list \<Rightarrow> string \<Rightarrow> error + pattern" where
  "re_compile fields separator =
     (if list_all supported_text fields \<and> literal_set separator
      then Inr (Pattern (if fields = [] then [[]] else fields) separator)
      else Inl Unsupported_pattern)"

text \<open>
  One alternative against the head of \<open>text\<close>, character by character: \<^verbatim>\<open>$\<close> consumes
  nothing and holds at the end of the text or before a newline that ends the text; any
  other character stands for itself. The result is the text matched and the text left.
\<close>

fun match_word :: "string \<Rightarrow> string \<Rightarrow> (string \<times> string) option" where
  "match_word [] text = Some ([], text)"
| "match_word (p # ps) text =
     (if p = CHR ''$'' then
        (if text = [] \<or> text = [CHR 0x0A] then match_word ps text else None)
      else
        (case text of
           [] \<Rightarrow> None
         | c # cs \<Rightarrow>
             if c = p then
               (case match_word ps cs of
                  None \<Rightarrow> None
                | Some (m, left) \<Rightarrow> Some (c # m, left))
             else None))"

text \<open>
  A match attempt at the head of \<open>text\<close>: the alternatives are tried from left to right
  and the text matched by the first one that is followed by \<open>=\<close> is group 1. Group 2
  that follows can always match (it may be empty), so no later alternative is tried once
  one fits.
\<close>

fun match_alternative :: "string list \<Rightarrow> string \<Rightarrow> string option" where
  "match_alternative [] text = None"
| "match_alternative (f # fs) text =
     (case match_word f text of
        None \<Rightarrow> match_alternative fs text
      | Some (g, left) \<Rightarrow>
          (case left of
             [] \<Rightarrow> match_alternative fs text
           | c # cs \<Rightarrow> if c = CHR ''='' then Some g else match_alternative fs text))"

text \<open>
  \<^verbatim>\<open>re.sub(pattern, repl, message)\<close> with a function \<open>repl\<close> of group 1: the message is
  scanned from the left; where a match starts, the matched text (group 1, \<open>=\<close> and the
  run of group 2) is replaced by \<open>repl\<close> of group 1 and the scan goes on behind the match;
  elsewhere the character is copied. A match holds at least the character \<open>=\<close>, so the
  special treatment \<^verbatim>\<open>re.sub\<close> gives to empty matches never applies.
\<close>

function re_sub :: "pattern \<Rightarrow> (string \<Rightarrow> string) \<Rightarrow> string \<Rightarrow> string" where
  "re_sub p repl [] = []"
| "re_sub p repl (c # cs) =
     (case match_alternative (alternatives p) (c # cs) of
        None \<Rightarrow> c # re_sub p repl cs
      | Some g \<Rightarrow>
          repl g @ re_sub p repl
            (dropWhile (\<lambda>x. x \<notin> set (excluded p)) (drop (Suc (length g)) (c # cs))))"
  by pat_completeness auto
termination
proof (relation "measure (\<lambda>(p, repl, text). length text)")
  show "wf (measure (\<lambda>(p, repl, text). length text))"
    by simp
next
  fix p :: pattern and repl :: "string \<Rightarrow> string" and c :: char and cs :: string
  show "((p, repl, cs), (p, repl, c # cs)) \<in> measure (\<lambda>(p, repl, text). length text)"
    by simp
next
  fix p :: pattern and repl :: "string \<Rightarrow> string" and c :: char and cs g :: string
  have "length (dropWhile (\<lambda>x. x \<notin> set (excluded p)) (drop (length g) cs)) \<le> length cs"
    by (rule order_trans [OF length_dropWhile_le]) simp
  then show "((p, repl, dropWhile (\<lambda>x. x \<notin> set (excluded p)) (drop (Suc (length g)) (c # cs))),
              (p, repl, c # cs)) \<in> measure (\<lambda>(p, repl, text). length text)"
    by simp
qed

subsection \<open>filter_datum\<close>

definition filter_datum :: "string list \<Rightarrow> string \<Rightarrow> string \<Rightarrow> string \<Rightarrow> error + string" where
  "filter_datum fields redaction message separator =
     (case re_compile fields separator of
        Inl e \<Rightarrow> Inl e
      | Inr pattern \<Rightarrow> Inr (re_sub pattern (\<lambda>g. g @ ''='' @ redaction) message))"

subsection \<open>RedactingFormatter\<close>

text \<open>
  The fields of a \<^verbatim>\<open>logging.LogRecord\<close> that the format string reads, as texts:
  \<open>message\<close> is the result of \<^verbatim>\<open>record.getMessage()\<close>, \<open>asctime\<close> the formatted
  time, \<open>exc_text\<close> and \<open>stack_info\<close> the optional blocks that
  \<^verbatim>\<open>logging.Formatter.format\<close> appends.
\<close>

datatype log_record =
  LogRecord
    (name: string)
    (levelname: string)
    (asctime: string)
    (message: string)
    (exc_text: "string option")
    (stack_info: "string option")

definition REDACTION :: string where
  "REDACTION = ''***''"

definition SEPARATOR :: string where
  "SEPARATOR = '';''"

text \<open>\<^verbatim>\<open>%-15s\<close>: the text, padded with blanks on the right to 15 characters.\<close>

definition ljust :: "nat \<Rightarrow> string \<Rightarrow> string" where
  "ljust n s = s @ replicate (n - length s) CHR '' ''"

text \<open>\<^verbatim>\<open>FORMAT = "[HOLBERTON] %(name)s %(levelname)s %(asctime)-15s: %(message)s"\<close>\<close>

definition FORMAT :: "log_record \<Rightarrow> string" where
  "FORMAT r =
     ''[HOLBERTON] '' @ name r @ '' '' @ levelname r @ '' '' @ ljust 15 (asctime r)
       @ '': '' @ message r"

text \<open>
  \<^verbatim>\<open>logging.Formatter.format\<close> appends a non-empty exception text and a non-empty stack
  text, each on a new line: \<^verbatim>\<open>if s[-1:] != "\n": s = s + "\n"\<close>.
\<close>

definition append_block :: "string \<Rightarrow> string option \<Rightarrow> string" where
  "append_block s b =
     (case b of
        None \<Rightarrow> s
      | Some t \<Rightarrow>
          if t = [] then s
          else (if drop (length s - 1) s \<noteq> [CHR 0x0A] then s @ [CHR 0x0A] else s) @ t)"

definition Formatter_format :: "log_record \<Rightarrow> string" where
  "Formatter_format r = append_block (append_block (FORMAT r) (exc_text r)) (stack_info r)"

text \<open>
  \<^verbatim>\<open>RedactingFormatter(fields).format(record)\<close>, line 63: the formatter's only state is
  the field list given to \<^verbatim>\<open>__init__\<close>.
\<close>

definition format :: "string list \<Rightarrow> log_record \<Rightarrow> error + string" where
  "format fields r = filter_datum fields REDACTION (Formatter_format r) SEPARATOR"

subsection \<open>main\<close>

text \<open>\<^verbatim>\<open>sep.join(parts)\<close>\<close>

fun join :: "string \<Rightarrow> string list \<Rightarrow> string" where
  "join sep [] = []"
| "join sep [x] = x"
| "join sep (x # y # ys) = x @ sep @ join sep (y # ys)"


text \<open>What a run leaves behind: the two resources and the lines written by the handler.\<close>

datatype run_state =
  State
    (connection_open: bool)
    (cursor_open: bool)
    (stream: "string list")

text \<open>
  \<^verbatim>\<open>f"{fields[i]}={row[i]}" for i in range(len(fields))\<close>: one pair per column name;
  a row shorter than the column list raises \<^verbatim>\<open>IndexError\<close> at \<^verbatim>\<open>row[i]\<close>.
\<close>

fun row_pairs :: "string list \<Rightarrow> string list \<Rightarrow> error + string list" where
  "row_pairs [] row = Inr []"
| "row_pairs (f # fs) [] = Inl IndexError"
| "row_pairs (f # fs) (v # vs) =
     (case row_pairs fs vs of
        Inl e \<Rightarrow> Inl e
      | Inr ps \<Rightarrow> Inr ((f @ ''='' @ v) # ps))"

text \<open>Line 129.\<close>

definition row_message :: "string list \<Rightarrow> string list \<Rightarrow> error + string" where
  "row_message fields row =
     (case row_pairs fields row of
        Inl e \<Rightarrow> Inl e
      | Inr ps \<Rightarrow> Inr (join ''; '' ps))"

text \<open>
  \<^verbatim>\<open>logger.info(message)\<close> on the logger of \<^verbatim>\<open>get_logger\<close>: name \<^verbatim>\<open>user_data\<close>, level
  INFO, one stream handler whose formatter is \<^verbatim>\<open>RedactingFormatter(fields=PII_FIELDS)\<close>.
\<close>

definition info :: "string \<Rightarrow> string \<Rightarrow> run_state \<Rightarrow> run_state \<times> (error + unit)" where
  "info now m s =
     (case format PII_FIELDS (LogRecord ''user_data'' ''INFO'' now m None None) of
        Inl e \<Rightarrow> (s, Inl e)
      | Inr line \<Rightarrow>
          (State (connection_open s) (cursor_open s) (stream s @ [line]), Inr ()))"

text \<open>The loop of lines 128 to 130. An error ends it at once, with the state as it is.\<close>

fun log_rows ::
  "string list \<Rightarrow> string \<Rightarrow> (error + string list) list \<Rightarrow> run_state \<Rightarrow> run_state \<times> (error + unit)"
where
  "log_rows fields now [] s = (s, Inr ())"
| "log_rows fields now (Inl e # rest) s = (s, Inl e)"
| "log_rows fields now (Inr row # rest) s =
     (case row_message fields row of
        Inl e \<Rightarrow> (s, Inl e)
      | Inr m \<Rightarrow>
          (case info now m s of
             (s', Inl e) \<Rightarrow> (s', Inl e)
           | (s', Inr u) \<Rightarrow> log_rows fields now rest s'))"





section \<open>Notions used to state the properties\<close>

text \<open>
  The scan of \<open>filter_datum\<close> when every alternative is literal: an alternative fits
  where it is, followed by \<open>=\<close>, a prefix of the text, and it is its own group 1.
  Lemma \<open>re_sub_literal\<close> below shows that this is what \<open>re_sub\<close> computes for
  literal alternatives with the replacement of line 32.
\<close>

fun match_literal :: "string list \<Rightarrow> string \<Rightarrow> string option" where
  "match_literal [] text = None"
| "match_literal (f # fs) text =
     (if prefix (f @ ''='') text then Some f else match_literal fs text)"

function redact :: "string list \<Rightarrow> char list \<Rightarrow> string \<Rightarrow> string \<Rightarrow> string" where
  "redact alts sep redaction [] = []"
| "redact alts sep redaction (c # cs) =
     (case match_literal alts (c # cs) of
        None \<Rightarrow> c # redact alts sep redaction cs
      | Some g \<Rightarrow>
          g @ ''='' @ redaction @ redact alts sep redaction
            (dropWhile (\<lambda>x. x \<notin> set sep) (drop (Suc (length g)) (c # cs))))"
  by pat_completeness auto
termination
proof (relation "measure (\<lambda>(alts, sep, redaction, text). length text)")
  show "wf (measure (\<lambda>(alts, sep, redaction, text). length text))"
    by simp
next
  fix alts :: "string list" and sep redaction cs :: string and c :: char
  show "((alts, sep, redaction, cs), (alts, sep, redaction, c # cs))
          \<in> measure (\<lambda>(alts, sep, redaction, text). length text)"
    by simp
next
  fix alts :: "string list" and sep redaction cs g :: string and c :: char
  have "length (dropWhile (\<lambda>x. x \<notin> set sep) (drop (length g) cs)) \<le> length (drop (length g) cs)"
    by (rule length_dropWhile_le)
  then show "((alts, sep, redaction,
               dropWhile (\<lambda>x. x \<notin> set sep) (drop (Suc (length g)) (c # cs))),
              (alts, sep, redaction, c # cs))
          \<in> measure (\<lambda>(alts, sep, redaction, text). length text)"
    by simp
qed

text \<open>
  A message of the specification is a list of tokens \<open>(key, value)\<close>, each written
  \<open>key=value\<close>, joined by the separator. It is well formed when no key holds \<open>=\<close> and
  neither keys nor values hold a character of the separator.
\<close>

fun render_token :: "string \<times> string \<Rightarrow> string" where
  "render_token (k, v) = k @ ''='' @ v"

definition well_formed :: "char list \<Rightarrow> (string \<times> string) list \<Rightarrow> bool" where
  "well_formed sep toks =
     list_all (\<lambda>(k, v). CHR ''='' \<notin> set k \<and> list_all (\<lambda>x. x \<notin> set sep) k
                 \<and> list_all (\<lambda>x. x \<notin> set sep) v) toks"

text \<open>
  Field names as the specification supposes them (section 3): none holds \<open>=\<close> or a
  character of the separator.
\<close>

definition plain_fields :: "char list \<Rightarrow> string list \<Rightarrow> bool" where
  "plain_fields sep fields =
     list_all (\<lambda>f. CHR ''='' \<notin> set f \<and> list_all (\<lambda>x. x \<notin> set sep) f) fields"

text \<open>
  What the scan makes of one token: the key stays; the value becomes the redaction when
  some field name is the end of the key, and is scanned itself otherwise.
\<close>

fun redact_token :: "string list \<Rightarrow> char list \<Rightarrow> string \<Rightarrow> string \<times> string \<Rightarrow> string" where
  "redact_token fields sep redaction (k, v) =
     k @ ''='' @ (if list_ex (\<lambda>f. suffix f k) fields then redaction
                  else redact fields sep redaction v)"

text \<open>
  \<^verbatim>\<open>text.split(c)\<close> for a separator of one character, and the keys of a message: of
  every piece the part before its first \<open>=\<close>.
\<close>

fun split_on :: "char \<Rightarrow> string \<Rightarrow> string list" where
  "split_on c [] = [[]]"
| "split_on c (x # xs) =
     (if x = c then [] # split_on c xs
      else (case split_on c xs of [] \<Rightarrow> [[x]] | t # ts \<Rightarrow> (x # t) # ts))"

definition keys_of :: "char \<Rightarrow> string \<Rightarrow> string list" where
  "keys_of c text = map (takeWhile (\<lambda>x. x \<noteq> CHR ''='')) (split_on c text)"

text \<open>
  A rendered line cut into segments: \<open>Field f v\<close> is an occurrence \<open>f=v\<close> of a field
  name \<open>f\<close>, wherever the name stands (at the start of a key or as the end of a longer
  one), and \<open>Text t\<close> is anything else. The cut is admissible when, in a \<open>Text\<close>, no
  field name followed by \<open>=\<close> begins at any position, and the value of a \<open>Field\<close>
  is the whole run up to the next separator character or the end of the line.
\<close>

datatype segment = Text string | Field string string

fun flatten :: "segment list \<Rightarrow> string" where
  "flatten [] = []"
| "flatten (Text t # segs) = t @ flatten segs"
| "flatten (Field f v # segs) = f @ ''='' @ v @ flatten segs"

fun mask_segment :: "string \<Rightarrow> segment \<Rightarrow> segment" where
  "mask_segment redaction (Text t) = Text t"
| "mask_segment redaction (Field f v) = Field f redaction"

fun no_match_in :: "string list \<Rightarrow> string \<Rightarrow> string \<Rightarrow> bool" where
  "no_match_in fields [] rest = True"
| "no_match_in fields (c # cs) rest =
     (list_all (\<lambda>f. \<not> prefix (f @ ''='') (c # cs @ rest)) fields \<and> no_match_in fields cs rest)"

fun segmented :: "string list \<Rightarrow> char list \<Rightarrow> segment list \<Rightarrow> bool" where
  "segmented fields sep [] = True"
| "segmented fields sep (Text t # segs) =
     (no_match_in fields t (flatten segs) \<and> segmented fields sep segs)"
| "segmented fields sep (Field f v # segs) =
     (f \<in> set fields \<and> takeWhile (\<lambda>x. x \<notin> set sep) (v @ flatten segs) = v
      \<and> segmented fields sep segs)"

section \<open>The scan\<close>

lemma redact_Nil: "redact alts sep redaction [] = []"
  by simp

lemma match_literal_Nil: "match_literal alts [] = None"
  by (induction alts) auto

lemma redact_None:
  "match_literal alts (c # cs) = None \<Longrightarrow>
   redact alts sep redaction (c # cs) = c # redact alts sep redaction cs"
  by simp

lemma redact_Some:
  assumes "match_literal alts t = Some g"
  shows "redact alts sep redaction t =
         g @ ''='' @ redaction @ redact alts sep redaction (dropWhile (\<lambda>x. x \<notin> set sep) (drop (Suc (length g)) t))"
proof (cases t)
  case Nil
  with assms show ?thesis by (simp add: match_literal_Nil)
next
  case (Cons c cs)
  with assms show ?thesis by simp
qed

declare redact.simps(2) [simp del]

lemma match_Some_D:
  "match_literal alts t = Some g \<Longrightarrow> g \<in> set alts \<and> prefix (g @ ''='') t"
  by (induction alts) (auto split: if_splits)

lemma match_None_iff:
  "match_literal alts t = None \<longleftrightarrow> (\<forall>f\<in>set alts. \<not> prefix (f @ ''='') t)"
  by (induction alts) auto

lemma prefix_key_iff:
  assumes "CHR ''='' \<notin> set f"
  shows "prefix (f @ ''='') t \<longleftrightarrow>
         CHR ''='' \<in> set t \<and> takeWhile (\<lambda>x. x \<noteq> CHR ''='') t = f"
proof
  assume "prefix (f @ ''='') t"
  then obtain u where t: "t = f @ CHR ''='' # u" by (auto simp: prefix_def)
  have "takeWhile (\<lambda>x. x \<noteq> CHR ''='') (f @ CHR ''='' # u) = f"
    using assms by (induction f) auto
  with t show "CHR ''='' \<in> set t \<and> takeWhile (\<lambda>x. x \<noteq> CHR ''='') t = f" by simp
next
  assume h: "CHR ''='' \<in> set t \<and> takeWhile (\<lambda>x. x \<noteq> CHR ''='') t = f"
  then have "dropWhile (\<lambda>x. x \<noteq> CHR ''='') t \<noteq> []" by auto
  then obtain u where u: "dropWhile (\<lambda>x. x \<noteq> CHR ''='') t = CHR ''='' # u"
    using hd_dropWhile [of "\<lambda>x. x \<noteq> CHR ''=''" t] by (cases "dropWhile (\<lambda>x. x \<noteq> CHR ''='') t") auto
  have "t = takeWhile (\<lambda>x. x \<noteq> CHR ''='') t @ dropWhile (\<lambda>x. x \<noteq> CHR ''='') t" by simp
  with h u have "t = f @ CHR ''='' # u" by simp
  then show "prefix (f @ ''='') t" by (simp add: prefix_def)
qed

lemma match_key:
  assumes "list_all (\<lambda>f. CHR ''='' \<notin> set f) alts"
  shows "match_literal alts t =
         (if CHR ''='' \<in> set t \<and> takeWhile (\<lambda>x. x \<noteq> CHR ''='') t \<in> set alts
          then Some (takeWhile (\<lambda>x. x \<noteq> CHR ''='') t) else None)"
  using assms
proof (induction alts)
  case Nil
  then show ?case by simp
next
  case (Cons f fs)
  then have "CHR ''='' \<notin> set f" by simp
  from prefix_key_iff [OF this, of t] Cons show ?case by auto
qed

lemma redact_induct [case_names Nil None Some]:
  assumes "P []"
    and "\<And>c cs. match_literal alts (c # cs) = None \<Longrightarrow> P cs \<Longrightarrow> P (c # cs)"
    and "\<And>c cs g. match_literal alts (c # cs) = Some g \<Longrightarrow>
           P (dropWhile (\<lambda>x. x \<notin> set sep) (drop (Suc (length g)) (c # cs))) \<Longrightarrow> P (c # cs)"
  shows "P t"
proof (induction t rule: length_induct)
  case (1 t)
  show ?case
  proof (cases t)
    case Nil
    with assms(1) show ?thesis by simp
  next
    case (Cons c cs)
    show ?thesis
    proof (cases "match_literal alts (c # cs)")
      case None
      have "P cs" using 1 Cons by simp
      with None assms(2) Cons show ?thesis by simp
    next
      case (Some g)
      let ?r = "dropWhile (\<lambda>x. x \<notin> set sep) (drop (Suc (length g)) (c # cs))"
      have "length ?r \<le> length (drop (Suc (length g)) (c # cs))"
        by (rule length_dropWhile_le)
      then have "length ?r < length t" using Cons by simp
      then have "P ?r" using 1 by simp
      with Some assms(3) Cons show ?thesis by simp
    qed
  qed
qed

text \<open>The scan of the source on literal alternatives.\<close>

lemma prefix_snoc_iff:
  "prefix (f @ [x]) t \<longleftrightarrow> prefix f t \<and> (\<exists>r. drop (length f) t = x # r)"
proof
  assume "prefix (f @ [x]) t"
  then obtain r where "t = f @ x # r" by (auto simp: prefix_def)
  then show "prefix f t \<and> (\<exists>r. drop (length f) t = x # r)" by simp
next
  assume h: "prefix f t \<and> (\<exists>r. drop (length f) t = x # r)"
  then obtain u r where u: "t = f @ u" and r: "drop (length f) t = x # r"
    by (auto simp: prefix_def)
  then have "u = x # r" by simp
  with u show "prefix (f @ [x]) t" by simp
qed

lemma match_word_literal:
  "literal_text f \<Longrightarrow>
   match_word f t = (if prefix f t then Some (f, drop (length f) t) else None)"
proof (induction f arbitrary: t)
  case Nil
  show ?case by simp
next
  case (Cons p ps)
  from Cons(2) have p: "p \<noteq> CHR ''$''" and ps: "literal_text ps"
    by (auto simp: literal_text_def re_special_def)
  show ?case
  proof (cases t)
    case Nil
    with p show ?thesis by simp
  next
    case (Cons c cs)
    with p Cons.IH [OF ps, of cs] show ?thesis by simp
  qed
qed

lemma match_alternative_literal:
  "list_all literal_text alts \<Longrightarrow> match_alternative alts t = match_literal alts t"
proof (induction alts)
  case Nil
  show ?case by simp
next
  case (Cons f fs)
  then have f: "literal_text f" and ih: "match_alternative fs t = match_literal fs t"
    by simp_all
  show ?case
  proof (cases "prefix (f @ ''='') t")
    case True
    then obtain r where "prefix f t" "drop (length f) t = CHR ''='' # r"
      using prefix_snoc_iff [of f "CHR ''=''" t] by auto
    with True show ?thesis by (simp add: match_word_literal [OF f])
  next
    case False
    then have "\<not> (prefix f t \<and> (\<exists>r. drop (length f) t = CHR ''='' # r))"
      using prefix_snoc_iff [of f "CHR ''=''" t] by simp
    with False ih show ?thesis
      by (auto simp: match_word_literal [OF f] split: list.splits)
  qed
qed

lemma re_sub_literal:
  assumes "list_all literal_text alts"
  shows "re_sub (Pattern alts sep) (\<lambda>g. g @ ''='' @ redaction) t = redact alts sep redaction t"
proof (induction t rule: redact_induct [where alts = alts and sep = sep])
  case Nil
  show ?case by simp
next
  case (None c cs)
  then show ?case by (simp add: match_alternative_literal [OF assms] redact_None)
next
  case (Some c cs g)
  then show ?case
    by (simp add: match_alternative_literal [OF assms] redact_Some [OF Some(1)])
qed

lemma literal_supported: "literal_text f \<Longrightarrow> supported_text f"
  by (auto simp: literal_text_def supported_text_def re_special_def re_unsupported_def
      list_all_iff)

lemma filter_datum_redact:
  assumes "list_all literal_text fields" and "literal_set sep"
  shows "filter_datum fields redaction m sep =
         Inr (redact (if fields = [] then [[]] else fields) sep redaction m)"
proof -
  have "list_all supported_text fields"
    using assms(1) by (auto simp: list_all_iff intro: literal_supported)
  moreover have "list_all literal_text (if fields = [] then [[]] else fields)"
    using assms(1) by (simp add: literal_text_def)
  ultimately show ?thesis
    using assms(2)
    by (simp add: filter_datum_def re_compile_def re_sub_literal [simplified])
qed

lemma takeWhile_upto_eq:
  "takeWhile (\<lambda>x. x \<noteq> CHR ''='') (g @ CHR ''='' # u) =
   takeWhile (\<lambda>x. x \<noteq> CHR ''='') (g @ CHR ''='' # v)"
  by (induction g) auto

lemma redact_key:
  "takeWhile (\<lambda>x. x \<noteq> CHR ''='') (redact alts sep redaction t) =
     takeWhile (\<lambda>x. x \<noteq> CHR ''='') t
   \<and> (CHR ''='' \<in> set (redact alts sep redaction t) \<longleftrightarrow> CHR ''='' \<in> set t)"
proof (induction t rule: redact_induct [where alts = alts and sep = sep])
  case Nil
  show ?case by simp
next
  case (None c cs)
  then show ?case by (simp add: redact_None)
next
  case (Some c cs g)
  from match_Some_D [OF Some(1)] obtain u where t: "c # cs = g @ CHR ''='' # u"
    by (auto simp: prefix_def)
  show ?case
    unfolding redact_Some [OF Some(1)]
    using takeWhile_upto_eq [of g "redaction @ redact alts sep redaction
        (dropWhile (\<lambda>x. x \<notin> set sep) (drop (Suc (length g)) (c # cs)))" u]
    by (simp add: t)
qed

lemma match_redact:
  assumes "list_all (\<lambda>f. CHR ''='' \<notin> set f) alts"
  shows "match_literal alts (redact alts sep redaction t) = match_literal alts t"
  by (simp add: match_key [OF assms] redact_key)

lemma redact_hd:
  assumes "t \<noteq> []"
  shows "redact alts sep redaction t \<noteq> [] \<and> hd (redact alts sep redaction t) = hd t"
proof (cases "match_literal alts t")
  case None
  with assms show ?thesis by (cases t) (simp_all add: redact_None)
next
  case (Some g)
  from match_Some_D [OF Some] obtain u where t: "t = g @ CHR ''='' # u"
    by (auto simp: prefix_def)
  show ?thesis
    unfolding redact_Some [OF Some] by (cases g) (simp_all add: t)
qed

lemma dropWhile_stopped:
  "xs = [] \<or> \<not> P (hd xs) \<Longrightarrow> dropWhile P xs = xs"
  by (cases xs) auto

lemma dropWhile_redact_stopped:
  assumes "list_all (\<lambda>x. x \<notin> set sep) redaction"
    and stop: "r = [] \<or> hd r \<in> set sep"
  shows "dropWhile (\<lambda>x. x \<notin> set sep) (redaction @ redact alts sep redaction r) =
         redact alts sep redaction r"
proof -
  have "redact alts sep redaction r = [] \<or> \<not> hd (redact alts sep redaction r) \<notin> set sep"
  proof (cases r)
    case Nil
    then show ?thesis by simp
  next
    case (Cons x xs)
    then have "r \<noteq> []" by simp
    from redact_hd [OF this, of alts sep redaction] stop Cons show ?thesis by simp
  qed
  then have "dropWhile (\<lambda>x. x \<notin> set sep) (redact alts sep redaction r) = redact alts sep redaction r"
    by (rule dropWhile_stopped)
  moreover have "dropWhile (\<lambda>x. x \<notin> set sep) (redaction @ redact alts sep redaction r) =
        dropWhile (\<lambda>x. x \<notin> set sep) (redact alts sep redaction r)"
    using assms(1) by (simp add: list_all_iff)
  ultimately show ?thesis by simp
qed

lemma dropWhile_stops:
  "dropWhile (\<lambda>x. x \<notin> set sep) t = [] \<or> hd (dropWhile (\<lambda>x. x \<notin> set sep) t) \<in> set sep"
  using hd_dropWhile [of "\<lambda>x. x \<notin> set sep" t] by blast

lemma dropWhile_redact:
  assumes "list_all (\<lambda>x. x \<notin> set sep) redaction"
  shows "dropWhile (\<lambda>x. x \<notin> set sep)
           (redaction @ redact alts sep redaction (dropWhile (\<lambda>x. x \<notin> set sep) t)) =
         redact alts sep redaction (dropWhile (\<lambda>x. x \<notin> set sep) t)"
  by (rule dropWhile_redact_stopped [OF assms dropWhile_stops])

lemma redact_idem:
  assumes eq: "list_all (\<lambda>f. CHR ''='' \<notin> set f) alts"
    and m: "list_all (\<lambda>x. x \<notin> set sep) redaction"
  shows "redact alts sep redaction (redact alts sep redaction t) = redact alts sep redaction t"
proof (induction t rule: redact_induct [where alts = alts and sep = sep])
  case Nil
  show ?case by simp
next
  case (None c cs)
  have "match_literal alts (redact alts sep redaction (c # cs)) = None"
    using None(1) by (simp add: match_redact [OF eq])
  then have "match_literal alts (c # redact alts sep redaction cs) = None"
    by (simp add: redact_None [OF None(1)])
  then show ?case
    using None by (simp add: redact_None)
next
  case (Some c cs g)
  let ?r = "dropWhile (\<lambda>x. x \<notin> set sep) (drop (Suc (length g)) (c # cs))"
  let ?t' = "g @ ''='' @ redaction @ redact alts sep redaction ?r"
  have t': "redact alts sep redaction (c # cs) = ?t'"
    by (rule redact_Some [OF Some(1)])
  have "match_literal alts (redact alts sep redaction (c # cs)) = Some g"
    using Some(1) by (simp add: match_redact [OF eq])
  then have m': "match_literal alts ?t' = Some g" by (simp only: t')
  have "drop (Suc (length g)) ?t' = redaction @ redact alts sep redaction ?r" by simp
  then have "redact alts sep redaction ?t' =
      g @ ''='' @ redaction @ redact alts sep redaction
        (dropWhile (\<lambda>x. x \<notin> set sep) (redaction @ redact alts sep redaction ?r))"
    using redact_Some [OF m', of sep redaction] by (simp only:)
  also have "\<dots> = g @ ''='' @ redaction @ redact alts sep redaction (redact alts sep redaction ?r)"
    by (simp only: dropWhile_redact [OF m])
  also have "\<dots> = ?t'" using Some(2) by simp
  finally show ?case by (simp only: t')
qed

lemma plain_fields_eq: "plain_fields sep alts \<Longrightarrow> list_all (\<lambda>f. CHR ''='' \<notin> set f) alts"
  by (simp add: plain_fields_def list_all_iff)

lemma prefix_within:
  assumes p: "prefix xs (v @ rest)"
    and xs: "list_all (\<lambda>x. x \<notin> set sep) xs"
    and stop: "rest = [] \<or> hd rest \<in> set sep"
  shows "prefix xs v"
proof -
  from p have "prefix xs v \<or> (\<exists>us. xs = v @ us \<and> prefix us rest)"
    by (simp add: prefix_append)
  then show ?thesis
  proof
    assume "prefix xs v" then show ?thesis .
  next
    assume "\<exists>us. xs = v @ us \<and> prefix us rest"
    then obtain us where us: "xs = v @ us" "prefix us rest" by blast
    show ?thesis
    proof (cases us)
      case Nil
      with us show ?thesis by simp
    next
      case (Cons u us')
      with us(2) obtain r where "rest = u # r" by (auto simp: prefix_def)
      with stop have "u \<in> set sep" by simp
      moreover have "u \<notin> set sep" using xs us(1) Cons by (simp add: list_all_iff)
      ultimately show ?thesis by simp
    qed
  qed
qed

lemma match_within:
  assumes "plain_fields sep alts" "CHR ''='' \<notin> set sep"
    and "rest = [] \<or> hd rest \<in> set sep"
  shows "match_literal alts (v @ rest) = match_literal alts v"
  using assms(1)
proof (induction alts)
  case Nil
  show ?case by simp
next
  case (Cons f fs)
  then have f: "list_all (\<lambda>x. x \<notin> set sep) (f @ ''='')"
    using assms(2) by (simp add: plain_fields_def)
  have "prefix (f @ ''='') (v @ rest) \<longleftrightarrow> prefix (f @ ''='') v"
    using prefix_within [OF _ f assms(3)] prefix_prefix [of "f @ ''=''" v rest] by blast
  moreover have "plain_fields sep fs" using Cons(2) by (simp add: plain_fields_def)
  ultimately show ?case using Cons(1) by simp
qed

lemma redact_within:
  assumes pf: "plain_fields sep alts" and eq: "CHR ''='' \<notin> set sep"
    and stop: "rest = [] \<or> hd rest \<in> set sep"
    and v: "list_all (\<lambda>x. x \<notin> set sep) v"
  shows "redact alts sep redaction (v @ rest) =
         redact alts sep redaction v @ redact alts sep redaction rest"
  using v
proof (induction v)
  case Nil
  show ?case by simp
next
  case (Cons c cs)
  have m: "match_literal alts ((c # cs) @ rest) = match_literal alts (c # cs)"
    by (rule match_within [OF pf eq stop])
  show ?case
  proof (cases "match_literal alts (c # cs)")
    case None
    with m have "match_literal alts (c # cs @ rest) = None" by simp
    with None Cons show ?thesis by (simp add: redact_None)
  next
    case (Some g)
    from match_Some_D [OF Some] obtain u where u: "c # cs = g @ CHR ''='' # u"
      by (auto simp: prefix_def)
    from Cons(2) u have "list_all (\<lambda>x. x \<notin> set sep) (g @ CHR ''='' # u)" by simp
    then have ufree: "\<forall>x\<in>set u. x \<notin> set sep" by (simp add: list_all_iff)
    have d1: "dropWhile (\<lambda>x. x \<notin> set sep) (drop (Suc (length g)) (c # cs)) = []"
      using ufree by (simp add: u)
    have d2: "dropWhile (\<lambda>x. x \<notin> set sep) (drop (Suc (length g)) ((c # cs) @ rest)) = rest"
    proof -
      have "drop (Suc (length g)) ((c # cs) @ rest) = u @ rest" by (simp add: u)
      moreover have "dropWhile (\<lambda>x. x \<notin> set sep) (u @ rest) = dropWhile (\<lambda>x. x \<notin> set sep) rest"
        using ufree by simp
      moreover have "dropWhile (\<lambda>x. x \<notin> set sep) rest = rest"
        using stop by (intro dropWhile_stopped) simp
      ultimately show ?thesis by simp
    qed
    from m Some have m': "match_literal alts ((c # cs) @ rest) = Some g" by simp
    show ?thesis
      unfolding redact_Some [OF Some] redact_Some [OF m'] d1 d2
      by simp
  qed
qed

lemma redact_separator:
  assumes pf: "plain_fields sep alts" and eq: "CHR ''='' \<notin> set sep"
    and s: "list_all (\<lambda>x. x \<in> set sep) s"
  shows "redact alts sep redaction (s @ rest) = s @ redact alts sep redaction rest"
  using s
proof (induction s)
  case Nil
  show ?case by simp
next
  case (Cons x xs)
  then have x: "x \<in> set sep" by simp
  have "\<not> prefix (f @ ''='') (x # xs @ rest)" if "f \<in> set alts" for f
  proof (cases f)
    case Nil
    with x eq show ?thesis by auto
  next
    case (Cons y ys)
    from that pf have "y \<notin> set sep" by (auto simp: plain_fields_def list_all_iff Cons)
    with x Cons show ?thesis by auto
  qed
  then have "match_literal alts (x # xs @ rest) = None"
    by (simp add: match_None_iff)
  with Cons show ?case by (simp add: redact_None)
qed

lemma dropWhile_value:
  assumes "list_all (\<lambda>x. x \<notin> set sep) v" "rest = [] \<or> hd rest \<in> set sep"
  shows "dropWhile (\<lambda>x. x \<notin> set sep) (v @ rest) = rest"
proof -
  have "dropWhile (\<lambda>x. x \<notin> set sep) (v @ rest) = dropWhile (\<lambda>x. x \<notin> set sep) rest"
    using assms(1) by (simp add: list_all_iff)
  moreover have "dropWhile (\<lambda>x. x \<notin> set sep) rest = rest"
    using assms(2) by (intro dropWhile_stopped) simp
  ultimately show ?thesis by simp
qed

lemma takeWhile_key:
  "CHR ''='' \<notin> set k \<Longrightarrow> takeWhile (\<lambda>x. x \<noteq> CHR ''='') (k @ CHR ''='' # u) = k"
  by (induction k) auto

lemma redact_key_value:
  assumes pf: "plain_fields sep alts" and eq: "CHR ''='' \<notin> set sep"
    and v: "list_all (\<lambda>x. x \<notin> set sep) v"
    and stop: "rest = [] \<or> hd rest \<in> set sep"
    and k: "CHR ''='' \<notin> set k"
  shows "redact alts sep redaction (k @ ''='' @ v @ rest) =
         redact_token alts sep redaction (k, v) @ redact alts sep redaction rest"
  using k
proof (induction k)
  case Nil
  have m: "match_literal alts (''='' @ v @ rest) = (if [] \<in> set alts then Some [] else None)"
    by (simp add: match_key [OF plain_fields_eq [OF pf]])
  have ex: "list_ex (\<lambda>f. suffix f []) alts \<longleftrightarrow> [] \<in> set alts"
    by (auto simp: list_ex_iff)
  show ?case
  proof (cases "[] \<in> set alts")
    case True
    with m have m': "match_literal alts (''='' @ v @ rest) = Some []" by simp
    show ?thesis
      unfolding append_Nil redact_Some [OF m']
      using True ex by (simp add: dropWhile_value [OF v stop])
  next
    case False
    with m have "match_literal alts (CHR ''='' # v @ rest) = None" by simp
    then have "redact alts sep redaction (''='' @ v @ rest) =
        CHR ''='' # redact alts sep redaction (v @ rest)"
      by (simp add: redact_None)
    then show ?thesis
      using False ex by (simp add: redact_within [OF pf eq stop v])
  qed
next
  case (Cons c cs)
  then have c: "c \<noteq> CHR ''=''" and cs: "CHR ''='' \<notin> set cs" by auto
  have tk: "takeWhile (\<lambda>x. x \<noteq> CHR ''='') ((c # cs) @ ''='' @ v @ rest) = c # cs"
    using takeWhile_key [OF Cons(2), of "v @ rest"] by simp
  have m: "match_literal alts ((c # cs) @ ''='' @ v @ rest) =
      (if c # cs \<in> set alts then Some (c # cs) else None)"
    unfolding match_key [OF plain_fields_eq [OF pf]] tk by simp
  show ?case
  proof (cases "c # cs \<in> set alts")
    case True
    with m have m': "match_literal alts ((c # cs) @ ''='' @ v @ rest) = Some (c # cs)" by simp
    have ex: "list_ex (\<lambda>f. suffix f (c # cs)) alts"
      using True by (auto simp: list_ex_iff)
    have d: "drop (Suc (length (c # cs))) ((c # cs) @ ''='' @ v @ rest) = v @ rest" by simp
    show ?thesis
      unfolding redact_Some [OF m'] d dropWhile_value [OF v stop]
      using ex by simp
  next
    case False
    with m have "match_literal alts (c # cs @ ''='' @ v @ rest) = None" by simp
    then have r: "redact alts sep redaction ((c # cs) @ ''='' @ v @ rest) =
        c # redact alts sep redaction (cs @ ''='' @ v @ rest)"
      by (simp add: redact_None)
    have ex: "list_ex (\<lambda>f. suffix f (c # cs)) alts \<longleftrightarrow> list_ex (\<lambda>f. suffix f cs) alts"
      using False by (auto simp: list_ex_iff suffix_Cons)
    show ?thesis
      unfolding r Cons(1) [OF cs] using ex by simp
  qed
qed

lemma redact_tokens:
  assumes pf: "plain_fields sep alts" and eq: "CHR ''='' \<notin> set sep" and ne: "sep \<noteq> []"
    and wf: "well_formed sep toks"
  shows "redact alts sep redaction (join sep (map render_token toks)) =
         join sep (map (redact_token alts sep redaction) toks)"
  using wf
proof (induction toks)
  case Nil
  show ?case by simp
next
  case (Cons t ts)
  obtain k v where t: "t = (k, v)" by (cases t)
  from Cons(2) t have k: "CHR ''='' \<notin> set k" and v: "list_all (\<lambda>x. x \<notin> set sep) v"
    and ts: "well_formed sep ts"
    by (simp_all add: well_formed_def)
  show ?case
  proof (cases ts)
    case Nil
    have "redact alts sep redaction (k @ ''='' @ v @ []) =
        redact_token alts sep redaction (k, v) @ redact alts sep redaction []"
      by (rule redact_key_value [OF pf eq v _ k]) simp
    then show ?thesis by (simp add: t Nil)
  next
    case (Cons t' ts')
    let ?rest = "join sep (map render_token ts)"
    have stop: "sep @ ?rest = [] \<or> hd (sep @ ?rest) \<in> set sep"
      using ne by simp
    have "redact alts sep redaction (k @ ''='' @ v @ sep @ ?rest) =
        redact_token alts sep redaction (k, v) @ redact alts sep redaction (sep @ ?rest)"
      by (rule redact_key_value [OF pf eq v stop k])
    also have "redact alts sep redaction (sep @ ?rest) = sep @ redact alts sep redaction ?rest"
      by (rule redact_separator [OF pf eq]) (simp add: list_all_iff)
    finally show ?thesis
      using Cons.IH [OF ts] by (simp add: t Cons)
  qed
qed

lemma split_on_not_Nil: "split_on c xs \<noteq> []"
  by (induction xs) (auto split: list.splits)

lemma keys_of_Cons_cong:
  assumes "keys_of c ys = keys_of c zs"
  shows "keys_of c (x # ys) = keys_of c (x # zs)"
proof -
  obtain t ts where ys: "split_on c ys = t # ts"
    using split_on_not_Nil [of c ys] by (cases "split_on c ys") auto
  obtain t' ts' where zs: "split_on c zs = t' # ts'"
    using split_on_not_Nil [of c zs] by (cases "split_on c zs") auto
  from assms show ?thesis
    by (simp add: keys_of_def ys zs)
qed

lemma keys_of_append_cong:
  "keys_of c ys = keys_of c zs \<Longrightarrow> keys_of c (p @ ys) = keys_of c (p @ zs)"
proof (induction p)
  case Nil
  then show ?case by simp
next
  case (Cons x p)
  then have "keys_of c (p @ ys) = keys_of c (p @ zs)" by simp
  then have "keys_of c (x # p @ ys) = keys_of c (x # p @ zs)" by (rule keys_of_Cons_cong)
  then show ?case by simp
qed

lemma split_on_run:
  assumes "list_all (\<lambda>x. x \<noteq> c) u"
  shows "split_on c (u @ a) = (u @ hd (split_on c a)) # tl (split_on c a)"
  using assms
proof (induction u)
  case Nil
  then show ?case using split_on_not_Nil [of c a] by simp
next
  case (Cons x xs)
  then show ?case by simp
qed

lemma keys_of_value:
  assumes "c \<noteq> CHR ''=''" "list_all (\<lambda>x. x \<noteq> c) u"
  shows "keys_of c (CHR ''='' # u @ a) = [] # tl (keys_of c a)"
  using assms by (simp add: keys_of_def split_on_run map_tl)

lemma keys_of_redact:
  assumes c: "c \<noteq> CHR ''=''" and m: "list_all (\<lambda>x. x \<noteq> c) redaction"
  shows "keys_of c (redact alts [c] redaction t) = keys_of c t"
proof (induction t rule: redact_induct [where alts = alts and sep = "[c]"])
  case Nil
  show ?case by simp
next
  case (None x xs)
  then have "keys_of c (x # redact alts [c] redaction xs) = keys_of c (x # xs)"
    by (intro keys_of_Cons_cong) simp
  with None(1) show ?case by (simp add: redact_None)
next
  case (Some x xs g)
  from match_Some_D [OF Some(1)] obtain u where t: "x # xs = g @ CHR ''='' # u"
    by (auto simp: prefix_def)
  let ?run = "takeWhile (\<lambda>y. y \<notin> set [c]) u"
  let ?rest = "dropWhile (\<lambda>y. y \<notin> set [c]) u"
  have d: "dropWhile (\<lambda>y. y \<notin> set [c]) (drop (Suc (length g)) (x # xs)) = ?rest"
    by (simp add: t)
  have run: "list_all (\<lambda>y. y \<noteq> c) ?run"
    by (auto simp: list_all_iff dest: set_takeWhileD)
  have "keys_of c (CHR ''='' # redaction @ redact alts [c] redaction ?rest) =
      [] # tl (keys_of c (redact alts [c] redaction ?rest))"
    by (rule keys_of_value [OF c m])
  also have "\<dots> = [] # tl (keys_of c ?rest)"
    using Some(2) by (simp only: d)
  also have "\<dots> = keys_of c (CHR ''='' # ?run @ ?rest)"
    by (rule keys_of_value [OF c run, symmetric])
  finally have "keys_of c (g @ CHR ''='' # redaction @ redact alts [c] redaction ?rest) =
      keys_of c (g @ CHR ''='' # ?run @ ?rest)"
    by (rule keys_of_append_cong)
  moreover have "redact alts [c] redaction (x # xs) =
      g @ CHR ''='' # redaction @ redact alts [c] redaction ?rest"
    unfolding redact_Some [OF Some(1)] d by simp
  moreover have "x # xs = g @ CHR ''='' # ?run @ ?rest"
    by (simp add: t)
  ultimately show ?case by simp
qed

lemma redact_no_match:
  "no_match_in alts t rest \<Longrightarrow>
   redact alts sep redaction (t @ rest) = t @ redact alts sep redaction rest"
proof (induction t)
  case Nil
  show ?case by simp
next
  case (Cons c cs)
  then have "match_literal alts (c # cs @ rest) = None"
    by (simp add: match_None_iff list_all_iff)
  with Cons show ?case by (simp add: redact_None)
qed

lemma redact_field:
  assumes eq: "list_all (\<lambda>f. CHR ''='' \<notin> set f) alts" and f: "f \<in> set alts"
    and run: "takeWhile (\<lambda>x. x \<notin> set sep) (v @ rest) = v"
  shows "redact alts sep redaction (f @ ''='' @ v @ rest) =
         f @ ''='' @ redaction @ redact alts sep redaction rest"
proof -
  from eq f have "CHR ''='' \<notin> set f" by (simp add: list_all_iff)
  then have "takeWhile (\<lambda>x. x \<noteq> CHR ''='') (f @ ''='' @ v @ rest) = f"
    using takeWhile_key [of f "v @ rest"] by simp
  then have m: "match_literal alts (f @ ''='' @ v @ rest) = Some f"
    using f by (simp add: match_key [OF eq])
  have "v @ rest = takeWhile (\<lambda>x. x \<notin> set sep) (v @ rest) @ dropWhile (\<lambda>x. x \<notin> set sep) (v @ rest)"
    by simp
  then have "v @ rest = v @ dropWhile (\<lambda>x. x \<notin> set sep) (v @ rest)"
    by (simp only: run)
  then have d: "dropWhile (\<lambda>x. x \<notin> set sep) (v @ rest) = rest" by simp
  show ?thesis
    unfolding redact_Some [OF m] by (simp add: d)
qed

lemma redact_segments:
  assumes eq: "list_all (\<lambda>f. CHR ''='' \<notin> set f) alts"
  shows "segmented alts sep segs \<Longrightarrow>
         redact alts sep redaction (flatten segs) = flatten (map (mask_segment redaction) segs)"
proof (induction segs)
  case Nil
  show ?case by simp
next
  case (Cons s segs)
  show ?case
  proof (cases s)
    case (Text t)
    with Cons show ?thesis by (simp add: redact_no_match)
  next
    case (Field f v)
    with Cons have f: "f \<in> set alts"
      and run: "takeWhile (\<lambda>x. x \<notin> set sep) (v @ flatten segs) = v"
      and rest: "segmented alts sep segs" by simp_all
    show ?thesis
      using redact_field [OF eq f run, of redaction] Cons.IH [OF rest] by (simp add: Field)
  qed
qed

lemma redact_no_eq:
  "CHR ''='' \<notin> set v \<Longrightarrow> redact alts sep redaction v = v"
proof (induction v)
  case Nil
  show ?case by simp
next
  case (Cons c cs)
  have "match_literal alts (c # cs) = None"
  proof (cases "match_literal alts (c # cs)")
    case None
    then show ?thesis .
  next
    case (Some g)
    from match_Some_D [OF Some] obtain u where "c # cs = g @ CHR ''='' # u"
      by (auto simp: prefix_def)
    then have "CHR ''='' \<in> set (c # cs)" by (simp only: set_append) simp
    with Cons(2) show ?thesis by simp
  qed
  with Cons show ?case by (simp add: redact_None)
qed

lemma filter_datum_tokens:
  assumes "list_all literal_text fields" "literal_set sep" "fields \<noteq> []"
    "plain_fields sep fields" "CHR ''='' \<notin> set sep" "well_formed sep toks"
  shows "filter_datum fields redaction (join sep (map render_token toks)) sep =
         Inr (join sep (map (redact_token fields sep redaction) toks))"
proof -
  from assms(2) have "sep \<noteq> []" by (simp add: literal_set_def)
  from redact_tokens [OF assms(4) assms(5) this assms(6)] assms(1-3)
  show ?thesis by (simp add: filter_datum_redact)
qed


lemma segmentation_exists:
  "\<exists>segs. flatten segs = t \<and> segmented alts sep segs"
proof (induction t rule: redact_induct [where alts = alts and sep = sep])
  case Nil
  have "flatten [] = [] \<and> segmented alts sep []" by simp
  then show ?case by blast
next
  case (None c cs)
  then obtain segs where segs: "flatten segs = cs" "segmented alts sep segs" by blast
  from None(1) have "list_all (\<lambda>f. \<not> prefix (f @ ''='') (c # cs)) alts"
    by (simp add: match_None_iff list_all_iff)
  with segs have "flatten (Text [c] # segs) = c # cs \<and> segmented alts sep (Text [c] # segs)"
    by simp
  then show ?case by blast
next
  case (Some c cs g)
  from match_Some_D [OF Some(1)] obtain u where t: "c # cs = g @ CHR ''='' # u"
    and g: "g \<in> set alts"
    by (auto simp: prefix_def)
  let ?run = "takeWhile (\<lambda>x. x \<notin> set sep) u"
  let ?rest = "dropWhile (\<lambda>x. x \<notin> set sep) u"
  have "dropWhile (\<lambda>x. x \<notin> set sep) (drop (Suc (length g)) (c # cs)) = ?rest"
    by (simp add: t)
  with Some(2) obtain segs where segs: "flatten segs = ?rest" "segmented alts sep segs"
    by auto
  have "takeWhile (\<lambda>x. x \<notin> set sep) (?run @ ?rest) = ?run" by simp
  with segs g have "flatten (Field g ?run # segs) = c # cs
      \<and> segmented alts sep (Field g ?run # segs)"
    by (simp add: t)
  then show ?case by blast
qed

subsection \<open>The formatter and the loop of main\<close>

lemma format_PII_FIELDS:
  "format PII_FIELDS r = Inr (redact PII_FIELDS SEPARATOR REDACTION (Formatter_format r))"
proof -
  have "list_all literal_text PII_FIELDS"
    by (simp add: PII_FIELDS_def literal_text_def re_special_def)
  moreover have "literal_set SEPARATOR"
    by (simp add: SEPARATOR_def literal_set_def set_special_def)
  moreover have "PII_FIELDS \<noteq> []" by (simp add: PII_FIELDS_def)
  ultimately show ?thesis by (simp add: format_def filter_datum_redact)
qed

lemma row_pairs_zip:
  "length fields \<le> length row \<Longrightarrow>
   row_pairs fields row = Inr (map (\<lambda>(f, v). f @ ''='' @ v) (zip fields row))"
  by (induction fields row rule: row_pairs.induct) simp_all



lemmas eval_defs = filter_datum_def re_compile_def supported_text_def literal_set_def
  re_unsupported_def set_special_def

section \<open>Properties of filter_datum\<close>

text \<open>
  The general properties below are stated for literal patterns. \<open>literal_text f\<close>: the
  field name \<open>f\<close> holds none of the characters \<^verbatim>\<open>. ^ $ * + ? { } [ ] \ | ( )\<close>, which
  \<^verbatim>\<open>re\<close> reads as operators. \<open>literal_set sep\<close>: the separator is not empty and holds
  none of \<^verbatim>\<open>\ ] ^ - [\<close>, which have a meaning inside a bracketed set. Outside these
  conditions the pattern of line 29 is another regular expression, or none.
\<close>

subsection \<open>Which keys are matched\<close>

text \<open>
  Claim C1 says that a key is matched only when it is a field name as a whole, so that
  \<^verbatim>\<open>filter_datum(["name"], mask, "username=Bob", ";")\<close> returns its message unchanged.
  The pattern of line 29 is not anchored: \<^verbatim>\<open>re.sub\<close> finds \<^verbatim>\<open>name=\<close> inside
  \<^verbatim>\<open>username=\<close> and the value is masked.
\<close>

theorem filter_datum_username_counterexample:
  "filter_datum [''name''] ''***'' ''username=Bob'' '';'' = Inr ''username=***''
   \<and> filter_datum [''name''] ''***'' ''username=Bob'' '';'' \<noteq> Inr ''username=Bob''"
  by (simp add: eval_defs)

text \<open>
  Claim C1 as amended: a field name is matched where it ends a key. Let the field list be
  non-empty, its names literal and without \<open>=\<close> or a separator character, and the
  separator not empty and without \<^verbatim>\<open>\ ] ^ - [\<close> and \<open>=\<close>. Then in a well-formed
  message (no key holds \<open>=\<close>, no key or value holds a separator character) a token
  whose key does not end in any field name and whose value holds no \<open>=\<close> is left as
  it is, whatever the other tokens are.
\<close>

theorem filter_datum_token_unchanged:
  assumes "list_all literal_text fields" and "literal_set sep" and "fields \<noteq> []"
    and "plain_fields sep fields" and "CHR ''='' \<notin> set sep"
    and "well_formed sep (before @ (k, v) # after)"
    and "\<not> list_ex (\<lambda>f. suffix f k) fields" and "CHR ''='' \<notin> set v"
  shows "filter_datum fields redaction (join sep (map render_token (before @ (k, v) # after))) sep =
         Inr (join sep (map (redact_token fields sep redaction) before
                          @ (k @ ''='' @ v) # map (redact_token fields sep redaction) after))"
  using filter_datum_tokens [OF assms(1-6), of redaction] assms(7)
  by (simp add: redact_no_eq [OF assms(8)])

theorem filter_datum_token_unchanged_witness:
  "list_all literal_text [''name''] \<and> literal_set '';'' \<and> [''name''] \<noteq> []
   \<and> plain_fields '';'' [''name''] \<and> CHR ''='' \<notin> set '';''
   \<and> well_formed '';'' ([(''name'', ''Bob'')] @ (''city'', ''NYC'') # [(''username'', ''bob'')])
   \<and> \<not> list_ex (\<lambda>f. suffix f ''city'') [''name''] \<and> CHR ''='' \<notin> set ''NYC''
   \<and> filter_datum [''name''] ''***'' ''name=Bob;city=NYC;username=bob'' '';'' =
       Inr ''name=***;city=NYC;username=***''"
proof -
  have h: "list_all literal_text [''name'']" "literal_set '';''" "[''name''] \<noteq> []"
    "plain_fields '';'' [''name'']" "CHR ''='' \<notin> set '';''"
    "well_formed '';'' ([(''name'', ''Bob'')] @ (''city'', ''NYC'') # [(''username'', ''bob'')])"
    "\<not> list_ex (\<lambda>f. suffix f ''city'') [''name'']" "CHR ''='' \<notin> set ''NYC''"
    by (simp_all add: literal_text_def literal_set_def re_special_def set_special_def
        plain_fields_def well_formed_def suffix_def)
  from filter_datum_token_unchanged [OF h, of "''***''"] h show ?thesis
    by (simp add: suffix_def)
qed

subsection \<open>An empty field list\<close>

text \<open>
  Claim C2 says that with no field names \<open>filter_datum\<close> returns its message. With an
  empty list the group of line 29 is \<^verbatim>\<open>()\<close>, which matches the empty word before every
  \<open>=\<close>: every value is masked although no field was named.
\<close>

theorem filter_datum_empty_fields_masks:
  "filter_datum [] ''***'' ''a=b'' '';'' = Inr ''a=***''"
  by (simp add: eval_defs)

subsection \<open>Values that are empty or hold the equals sign\<close>






subsection \<open>Applying filter_datum twice\<close>

text \<open>
  Claim C4 says that \<open>filter_datum\<close> applied twice gives what it gives applied once,
  for every message in which no value holds the separator. The mask is any text: when
  it holds the separator, the second pass reads the mask written by the first as the end
  of the value and writes the mask again.
\<close>

theorem filter_datum_not_idempotent_counterexample:
  "filter_datum [''name''] '';'' ''name=Bob'' '';'' = Inr ''name=;''
   \<and> filter_datum [''name''] '';'' ''name=;'' '';'' = Inr ''name=;;''"
  by (simp add: eval_defs)

text \<open>
  A field name that holds \<open>=\<close> breaks the property in another way: the mask can
  complete a longer field name.
\<close>

lemma filter_datum_twice_equals_in_name:
  "filter_datum [''a=m'', ''a''] ''m='' ''a=x'' '';'' = Inr ''a=m=''
   \<and> filter_datum [''a=m'', ''a''] ''m='' ''a=m='' '';'' = Inr ''a=m=m=''"
  by (simp add: eval_defs)

text \<open>
  Claim C4 as amended: let the field names be literal and without \<open>=\<close>, the
  separator not empty and without \<^verbatim>\<open>\ ] ^ - [\<close>, and the mask without a character of the
  separator. Then \<open>filter_datum\<close> applied twice gives what it gives applied once, for
  every message.
\<close>

theorem filter_datum_idempotent:
  assumes "list_all literal_text fields" and "literal_set sep"
    and "list_all (\<lambda>f. CHR ''='' \<notin> set f) fields"
    and "list_all (\<lambda>x. x \<notin> set sep) redaction"
  shows "\<exists>out. filter_datum fields redaction m sep = Inr out
           \<and> filter_datum fields redaction out sep = Inr out"
proof -
  let ?alts = "if fields = [] then [[]] else fields"
  have "list_all (\<lambda>f. CHR ''='' \<notin> set f) ?alts" using assms(3) by simp
  from redact_idem [OF this assms(4), of m] show ?thesis
    by (simp add: filter_datum_redact [OF assms(1,2)])
qed

theorem filter_datum_idempotent_witness:
  "list_all literal_text [''password'', ''ssn''] \<and> literal_set '';''
   \<and> list_all (\<lambda>f. CHR ''='' \<notin> set f) [''password'', ''ssn'']
   \<and> list_all (\<lambda>x. x \<notin> set '';'') ''***''
   \<and> (\<exists>out. filter_datum [''password'', ''ssn''] ''***'' ''name=Bob;password=hunter2;ssn=123'' '';'' = Inr out
           \<and> filter_datum [''password'', ''ssn''] ''***'' out '';'' = Inr out)
   \<and> filter_datum [''password'', ''ssn''] ''***'' ''name=Bob;password=hunter2;ssn=123'' '';''
        = Inr ''name=Bob;password=***;ssn=***''"
proof -
  have h: "list_all literal_text [''password'', ''ssn'']" "literal_set '';''"
    "list_all (\<lambda>f. CHR ''='' \<notin> set f) [''password'', ''ssn'']"
    "list_all (\<lambda>x. x \<notin> set '';'') ''***''"
    by (simp_all add: literal_text_def literal_set_def re_special_def set_special_def)
  have e: "filter_datum [''password'', ''ssn''] ''***'' ''name=Bob;password=hunter2;ssn=123'' '';''
        = Inr ''name=Bob;password=***;ssn=***''"
    by (simp add: eval_defs)
  from filter_datum_idempotent [OF h, of "''name=Bob;password=hunter2;ssn=123''"] h e
  show ?thesis by blast
qed

subsection \<open>The keys of a message\<close>

text \<open>
  Claim C6 says that for every well-formed message the keys of the result, in order, are
  the keys of the message: no token is added, removed or moved. A mask that holds the
  separator adds a token: with the mask \<^verbatim>\<open>;x=1\<close> the one token \<^verbatim>\<open>name=Bob\<close> becomes
  \<^verbatim>\<open>name=;x=1\<close>, two tokens with the keys \<^verbatim>\<open>name\<close> and \<^verbatim>\<open>x\<close>.
\<close>

theorem filter_datum_adds_token_counterexample:
  "filter_datum [''name''] '';x=1'' ''name=Bob'' '';'' = Inr ''name=;x=1''
   \<and> keys_of CHR '';'' ''name=Bob'' = [''name'']
   \<and> keys_of CHR '';'' ''name=;x=1'' = [''name'', ''x'']"
  by (simp add: eval_defs keys_of_def)

text \<open>
  Claim C6 as amended: let the field names be literal, the separator one character other
  than \<open>=\<close> and \<^verbatim>\<open>\ ] ^ - [\<close>, and the mask without that character. Then the keys of
  the result are the keys of the message, in the same order, for every message (well
  formed or not).
\<close>

theorem filter_datum_keeps_keys:
  assumes "list_all literal_text fields" and "literal_set [c]"
    and "c \<noteq> CHR ''=''" and "list_all (\<lambda>x. x \<noteq> c) redaction"
  shows "\<exists>out. filter_datum fields redaction m [c] = Inr out \<and> keys_of c out = keys_of c m"
  using keys_of_redact [OF assms(3,4)]
  by (simp add: filter_datum_redact [OF assms(1,2)])

theorem filter_datum_keeps_keys_witness:
  "list_all literal_text [''password'', ''ssn''] \<and> literal_set [CHR '';'']
   \<and> CHR '';'' \<noteq> CHR ''='' \<and> list_all (\<lambda>x. x \<noteq> CHR '';'') ''***''
   \<and> (\<exists>out. filter_datum [''password'', ''ssn''] ''***'' ''name=Bob;password=hunter2;ssn=123'' [CHR '';''] = Inr out
          \<and> keys_of CHR '';'' out = keys_of CHR '';'' ''name=Bob;password=hunter2;ssn=123'')
   \<and> keys_of CHR '';'' ''name=Bob;password=hunter2;ssn=123'' = [''name'', ''password'', ''ssn'']"
proof -
  have h: "list_all literal_text [''password'', ''ssn'']" "literal_set [CHR '';'']"
    "CHR '';'' \<noteq> CHR ''=''" "list_all (\<lambda>x. x \<noteq> CHR '';'') ''***''"
    by (simp_all add: literal_text_def literal_set_def re_special_def set_special_def)
  have k: "keys_of CHR '';'' ''name=Bob;password=hunter2;ssn=123'' = [''name'', ''password'', ''ssn'']"
    by (simp add: keys_of_def)
  from filter_datum_keeps_keys [OF h, of "''name=Bob;password=hunter2;ssn=123''"] h k
  show ?thesis by blast
qed

section \<open>Properties of RedactingFormatter.format\<close>

text \<open>
  Claim C3 says that \<open>format\<close> renders the base template and then redacts the whole
  rendered line, so that every field of the configured list that appears as a
  \<^verbatim>\<open>key=value\<close> token is masked once and everything else in the line is unchanged. The
  redaction of the whole line is that of \<open>filter_datum\<close>: a field name is matched where
  it ends a longer key, and the value of a key that is not in the list is masked.
\<close>

theorem format_masks_longer_key_counterexample:
  "format [''name'']
     (LogRecord ''user_data'' ''INFO'' ''2019-11-19 18:24:25,105'' ''username=Bob'' None None) =
   Inr ''[HOLBERTON] user_data INFO 2019-11-19 18:24:25,105: username=***''"
  by (simp add: format_def eval_defs REDACTION_def SEPARATOR_def Formatter_format_def
      FORMAT_def append_block_def ljust_def)

text \<open>
  Claim C3 as amended: \<open>format\<close> renders the base template and then redacts the whole
  rendered line. Let the field list be non-empty and its names literal and without
  \<open>=\<close>. An occurrence of a field is a place of the rendered line where a field name
  is followed by \<open>=\<close>, also where the name only ends a longer key, together with its
  value, the whole run up to the next \<^verbatim>\<open>;\<close> or the end of the line. The rendered line
  can be cut into occurrences and other text in which no occurrence begins, and for every
  such cut the result of \<open>format\<close> is the same cut with the value of each occurrence
  replaced by the mask \<^verbatim>\<open>***\<close>: each occurrence is masked once and all other content is
  unchanged. Nothing is said of an empty field list.
\<close>

theorem format_masks_each_field:
  assumes "list_all literal_text fields" and "fields \<noteq> []"
    and "list_all (\<lambda>f. CHR ''='' \<notin> set f) fields"
  shows "(\<exists>segs. Formatter_format r = flatten segs \<and> segmented fields SEPARATOR segs)
       \<and> (\<forall>segs. Formatter_format r = flatten segs \<and> segmented fields SEPARATOR segs
            \<longrightarrow> format fields r = Inr (flatten (map (mask_segment REDACTION) segs)))"
proof
  from segmentation_exists [of "Formatter_format r" fields SEPARATOR]
  show "\<exists>segs. Formatter_format r = flatten segs \<and> segmented fields SEPARATOR segs"
    by metis
next
  have sep: "literal_set SEPARATOR"
    by (simp add: SEPARATOR_def literal_set_def set_special_def)
  have f: "format fields r = Inr (redact fields SEPARATOR REDACTION (Formatter_format r))"
    using assms(2) by (simp add: format_def filter_datum_redact [OF assms(1) sep])
  show "\<forall>segs. Formatter_format r = flatten segs \<and> segmented fields SEPARATOR segs
            \<longrightarrow> format fields r = Inr (flatten (map (mask_segment REDACTION) segs))"
  proof (intro allI impI)
    fix segs
    assume h: "Formatter_format r = flatten segs \<and> segmented fields SEPARATOR segs"
    then have "redact fields SEPARATOR REDACTION (flatten segs) =
        flatten (map (mask_segment REDACTION) segs)"
      using redact_segments [OF assms(3)] by blast
    with f h show "format fields r = Inr (flatten (map (mask_segment REDACTION) segs))"
      by simp
  qed
qed

theorem format_masks_each_field_witness:
  "list_all literal_text PII_FIELDS \<and> PII_FIELDS \<noteq> []
   \<and> list_all (\<lambda>f. CHR ''='' \<notin> set f) PII_FIELDS
   \<and> Formatter_format
        (LogRecord ''user_data'' ''INFO'' ''2019-11-19 18:24:25,105''
           ''name=Bob; email=bob@dylan.com; city=NYC'' None None) =
      flatten [Text ''[HOLBERTON] user_data INFO 2019-11-19 18:24:25,105: '',
               Field ''name'' ''Bob'', Text ''; '', Field ''email'' ''bob@dylan.com'',
               Text ''; city=NYC'']
   \<and> segmented PII_FIELDS SEPARATOR
        [Text ''[HOLBERTON] user_data INFO 2019-11-19 18:24:25,105: '',
         Field ''name'' ''Bob'', Text ''; '', Field ''email'' ''bob@dylan.com'',
         Text ''; city=NYC'']
   \<and> format PII_FIELDS
        (LogRecord ''user_data'' ''INFO'' ''2019-11-19 18:24:25,105''
           ''name=Bob; email=bob@dylan.com; city=NYC'' None None) =
      Inr ''[HOLBERTON] user_data INFO 2019-11-19 18:24:25,105: name=***; email=***; city=NYC''"
proof -
  let ?r = "LogRecord ''user_data'' ''INFO'' ''2019-11-19 18:24:25,105''
           ''name=Bob; email=bob@dylan.com; city=NYC'' None None"
  let ?segs = "[Text ''[HOLBERTON] user_data INFO 2019-11-19 18:24:25,105: '',
               Field ''name'' ''Bob'', Text ''; '', Field ''email'' ''bob@dylan.com'',
               Text ''; city=NYC'']"
  have h1: "list_all literal_text PII_FIELDS"
    by (simp add: PII_FIELDS_def literal_text_def re_special_def)
  have h2: "PII_FIELDS \<noteq> []" by (simp add: PII_FIELDS_def)
  have h3: "list_all (\<lambda>f. CHR ''='' \<notin> set f) PII_FIELDS" by (simp add: PII_FIELDS_def)
  have h4: "Formatter_format ?r = flatten ?segs"
    by (simp add: Formatter_format_def FORMAT_def append_block_def ljust_def)
  have h5: "segmented PII_FIELDS SEPARATOR ?segs"
    by (simp add: PII_FIELDS_def SEPARATOR_def)
  from format_masks_each_field [OF h1 h2 h3, of ?r] h4 h5
  have "format PII_FIELDS ?r = Inr (flatten (map (mask_segment REDACTION) ?segs))"
    by blast
  with h1 h2 h3 h4 h5 show ?thesis
    by (simp add: REDACTION_def)
qed

section \<open>Properties of main\<close>

subsection \<open>The message of a row\<close>

text \<open>
  Claim C8 says that the message of a row is its \<^verbatim>\<open>column=value\<close> pairs joined by the
  separator of the formatter, the one character \<^verbatim>\<open>;\<close>. Line 129 joins them by
  \<^verbatim>\<open>"; "\<close>, the separator followed by a blank.
\<close>

theorem row_message_joiner_counterexample:
  "row_message [''name'', ''email''] [''Bob'', ''b@x.com''] = Inr ''name=Bob; email=b@x.com''
   \<and> join SEPARATOR [''name=Bob'', ''email=b@x.com''] = ''name=Bob;email=b@x.com''
   \<and> row_message [''name'', ''email''] [''Bob'', ''b@x.com'']
       \<noteq> Inr (join SEPARATOR [''name=Bob'', ''email=b@x.com''])"
  by (simp add: row_message_def SEPARATOR_def)

text \<open>
  Claim C8 as amended: the message of a row is its pairs joined by the separator of the
  formatter followed by a blank, and this message is what the formatter is given; the
  line it returns is written before the next row is read.
\<close>

theorem row_message_joined:
  assumes "length fields \<le> length row"
  shows "row_message fields row =
           Inr (join (SEPARATOR @ '' '') (map (\<lambda>(f, v). f @ ''='' @ v) (zip fields row)))
       \<and> (\<exists>line. format PII_FIELDS
                    (LogRecord ''user_data'' ''INFO'' now
                       (join (SEPARATOR @ '' '') (map (\<lambda>(f, v). f @ ''='' @ v) (zip fields row)))
                       None None) = Inr line
              \<and> log_rows fields now (Inr row # rest) s =
                  log_rows fields now rest
                    (State (connection_open s) (cursor_open s) (stream s @ [line])))"
  by (simp add: row_message_def row_pairs_zip [OF assms] SEPARATOR_def info_def format_PII_FIELDS)

theorem row_message_joined_witness:
  "length [''name'', ''email''] \<le> length [''Bob'', ''b@x.com'']
   \<and> row_message [''name'', ''email''] [''Bob'', ''b@x.com''] = Inr ''name=Bob; email=b@x.com''
   \<and> log_rows [''name'', ''email''] ''2019-11-19 18:24:25,105'' [Inr [''Bob'', ''b@x.com'']]
         (State True True []) =
       (State True True
          [''[HOLBERTON] user_data INFO 2019-11-19 18:24:25,105: name=***; email=***''], Inr ())"
proof -
  let ?fields = "[''name'', ''email'']" and ?row = "[''Bob'', ''b@x.com'']"
  let ?now = "''2019-11-19 18:24:25,105''"
  have h: "length ?fields \<le> length ?row" by simp
  have j: "join (SEPARATOR @ '' '') (map (\<lambda>(f, v). f @ ''='' @ v) (zip ?fields ?row)) =
      ''name=Bob; email=b@x.com''"
    by (simp add: SEPARATOR_def)
  have f: "format PII_FIELDS (LogRecord ''user_data'' ''INFO'' ?now ''name=Bob; email=b@x.com'' None None)
      = Inr ''[HOLBERTON] user_data INFO 2019-11-19 18:24:25,105: name=***; email=***''"
    by (simp add: format_def eval_defs PII_FIELDS_def REDACTION_def SEPARATOR_def
        Formatter_format_def FORMAT_def append_block_def ljust_def)
  from row_message_joined [OF h, of ?now "[]" "State True True []"]
  obtain line where m: "row_message ?fields ?row =
        Inr (join (SEPARATOR @ '' '') (map (\<lambda>(f, v). f @ ''='' @ v) (zip ?fields ?row)))"
    and l: "format PII_FIELDS (LogRecord ''user_data'' ''INFO'' ?now
        (join (SEPARATOR @ '' '') (map (\<lambda>(f, v). f @ ''='' @ v) (zip ?fields ?row))) None None)
        = Inr line"
    and r: "log_rows ?fields ?now [Inr ?row] (State True True []) =
        log_rows ?fields ?now [] (State True True ([] @ [line]))"
    by auto
  from l f have "line = ''[HOLBERTON] user_data INFO 2019-11-19 18:24:25,105: name=***; email=***''"
    by (simp only: j) simp
  with r have "log_rows ?fields ?now [Inr ?row] (State True True []) =
      (State True True
         [''[HOLBERTON] user_data INFO 2019-11-19 18:24:25,105: name=***; email=***''], Inr ())"
    by (simp only: log_rows.simps append_Nil)
  moreover from m have "row_message ?fields ?row = Inr ''name=Bob; email=b@x.com''"
    by (simp only: j)
  ultimately show ?thesis using h by blast
qed

subsection \<open>Connection and cursor\<close>




end
